theory Spec2Isabelle
  imports Complex_Main
begin

section \<open>Strings as the source uses them\<close>

text \<open>
  A Python \<^verbatim>\<open>str\<close> is a sequence of code points. The model uses \<^typ>\<open>string\<close>, whose
  characters are the code points below 256. \<^verbatim>\<open>str.strip()\<close>, \<^verbatim>\<open>str.split()\<close> and the
  regular expression class \<^verbatim>\<open>\s\<close> all test one predicate on a code point (the Unicode
  whitespace test of the interpreter); in the range of the model it accepts the code points
  9 to 13, 28 to 32, 133 and 160.
\<close>

definition is_space :: "char \<Rightarrow> bool" where
  "is_space c = (let n = (of_char c :: nat) in
     (9 \<le> n \<and> n \<le> 13) \<or> (28 \<le> n \<and> n \<le> 32) \<or> n = 133 \<or> n = 160)"

text \<open>The class \<^verbatim>\<open>[A-Za-z0-9]\<close> of the keyword pattern.\<close>

definition is_alnum :: "char \<Rightarrow> bool" where
  "is_alnum c = (let n = (of_char c :: nat) in
     (65 \<le> n \<and> n \<le> 90) \<or> (97 \<le> n \<and> n \<le> 122) \<or> (48 \<le> n \<and> n \<le> 57))"

text \<open>\<^verbatim>\<open>s.strip()\<close>: whitespace removed from both ends.\<close>

definition strip :: "string \<Rightarrow> string" where
  "strip s = rev (dropWhile is_space (rev (dropWhile is_space s)))"

text \<open>\<^verbatim>\<open>sep.join(xs)\<close>, for any type of character.\<close>

fun join :: "'a list \<Rightarrow> 'a list list \<Rightarrow> 'a list" where
  "join sep [] = []"
| "join sep [x] = x"
| "join sep (x # y # ys) = x @ sep @ join sep (y # ys)"

text \<open>\<^verbatim>\<open>"\n\n" in s\<close>: two adjacent line feeds somewhere in the string.\<close>

fun contains_blank_line :: "string \<Rightarrow> bool" where
  "contains_blank_line (c # d # cs) =
     ((c = CHR 0x0A \<and> d = CHR 0x0A) \<or> contains_blank_line (d # cs))"
| "contains_blank_line cs = False"

text \<open>
  \<^verbatim>\<open>s.split("\n\n")\<close>: a scan from the left; each occurrence of the separator closes
  the current part and the scan goes on behind it, so occurrences do not overlap. The
  second argument holds the current part, reversed.
\<close>

fun split_blank_aux :: "string \<Rightarrow> string \<Rightarrow> string list" where
  "split_blank_aux cur (c # d # cs) =
     (if c = CHR 0x0A \<and> d = CHR 0x0A then rev cur # split_blank_aux [] cs
      else split_blank_aux (c # cur) (d # cs))"
| "split_blank_aux cur cs = [rev cur @ cs]"

definition split_blank :: "string \<Rightarrow> string list" where
  "split_blank s = split_blank_aux [] s"

text \<open>
  \<^verbatim>\<open>re.split(r'(?<=[.!?])\s+', s)\<close>: a match starts at a whitespace character whose
  predecessor is one of \<^verbatim>\<open>.\<close>, \<^verbatim>\<open>!\<close>, \<^verbatim>\<open>?\<close> and takes the whole run of whitespace;
  the search goes on behind the run. The flag says whether the character before the
  current position is one of the three; the second argument is the current piece, reversed.
\<close>

definition is_terminator :: "char \<Rightarrow> bool" where
  "is_terminator c = (c = CHR ''.'' \<or> c = CHR ''!'' \<or> c = CHR ''?'')"

function re_split_aux :: "bool \<Rightarrow> string \<Rightarrow> string \<Rightarrow> string list" where
  "re_split_aux prev cur [] = [rev cur]"
| "re_split_aux prev cur (c # cs) =
     (if prev \<and> is_space c then rev cur # re_split_aux False [] (dropWhile is_space cs)
      else re_split_aux (is_terminator c) (c # cur) cs)"
  by pat_completeness auto
termination
  by (relation "measure (\<lambda>(prev, cur, s). length s)")
     (auto simp: le_imp_less_Suc length_dropWhile_le)

definition re_split_sentences :: "string \<Rightarrow> string list" where
  "re_split_sentences s = re_split_aux False [] s"

text \<open>
  \<^verbatim>\<open>s.split()\<close> without argument: the maximal runs of non-whitespace characters.
  The first argument is the current word, reversed.
\<close>

fun split_ws_aux :: "string \<Rightarrow> string \<Rightarrow> string list" where
  "split_ws_aux cur [] = (if cur = [] then [] else [rev cur])"
| "split_ws_aux cur (c # cs) =
     (if is_space c then (if cur = [] then split_ws_aux [] cs else rev cur # split_ws_aux [] cs)
      else split_ws_aux (c # cur) cs)"

definition split_ws :: "string \<Rightarrow> string list" where
  "split_ws s = split_ws_aux [] s"

text \<open>\<^verbatim>\<open>re.sub(r'\s+', ' ', s)\<close>: every maximal run of whitespace becomes one space.\<close>

function collapse_ws :: "string \<Rightarrow> string" where
  "collapse_ws [] = []"
| "collapse_ws (c # cs) =
     (if is_space c then CHR '' '' # collapse_ws (dropWhile is_space cs)
      else c # collapse_ws cs)"
  by pat_completeness auto
termination
  by (relation "measure length") (auto simp: le_imp_less_Suc length_dropWhile_le)

section \<open>Scene segmentation\<close>

text \<open>
  The loop of \<^verbatim>\<open>split_into_scenes\<close> over the sentences, with its two variables
  \<^verbatim>\<open>scenes\<close> and \<^verbatim>\<open>chunk\<close>; it returns both as they are when the loop ends.
\<close>

fun chunk_loop :: "string list \<Rightarrow> string list \<Rightarrow> string list \<Rightarrow> string list \<times> string list" where
  "chunk_loop scenes chunk [] = (scenes, chunk)"
| "chunk_loop scenes chunk (s # ss) =
     (let chunk' = chunk @ [s]
      in if length chunk' \<ge> 3 then chunk_loop (scenes @ [join '' '' chunk']) [] ss
         else chunk_loop scenes chunk' ss)"

text \<open>The sentences of a (trimmed) script: the pieces of the regular expression, each
  trimmed, those that are empty after trimming left out.\<close>

definition sentences_of :: "string \<Rightarrow> string list" where
  "sentences_of script = map strip (filter (\<lambda>s. strip s \<noteq> []) (re_split_sentences script))"

definition split_into_scenes :: "string \<Rightarrow> string list" where
  "split_into_scenes script0 =
     (let script = strip script0;
          parts = (if contains_blank_line script
                   then map strip (filter (\<lambda>p. strip p \<noteq> []) (split_blank script))
                   else [])
      in if contains_blank_line script \<and> parts \<noteq> [] then parts
         else
           let sentences = sentences_of script;
               (scenes, chunk) = chunk_loop [] [] sentences;
               scenes' = (if chunk \<noteq> [] then scenes @ [join '' '' chunk] else scenes)
           in if scenes' \<noteq> [] then scenes' else [script])"

text \<open>
  The grouping the specification describes: consecutive groups of three, the last one
  holding what is left (one to three elements).
\<close>

fun chunks_of_three :: "'a list \<Rightarrow> 'a list list" where
  "chunks_of_three (a # b # c # xs) = [a, b, c] # chunks_of_three xs"
| "chunks_of_three [] = []"
| "chunks_of_three xs = [xs]"

text \<open>The statement after the loop: a chunk left over becomes the last scene.\<close>

definition finish_chunks :: "string list \<times> string list \<Rightarrow> string list" where
  "finish_chunks r = (case r of (scenes, chunk) \<Rightarrow>
      if chunk \<noteq> [] then scenes @ [join '' '' chunk] else scenes)"

section \<open>Keyword extraction\<close>

text \<open>
  The first three statements of \<^verbatim>\<open>safe_keyword_text\<close>: the characters that are neither
  letters, digits nor whitespace are removed, whitespace runs collapsed, the ends trimmed,
  and the result split into words.
\<close>

definition keyword_words :: "string \<Rightarrow> string list" where
  "keyword_words text =
     (let cleaned = filter (\<lambda>c. is_alnum c \<or> is_space c) text;
          cleaned' = strip (collapse_ws cleaned)
      in split_ws cleaned')"

definition safe_keyword_text :: "string \<Rightarrow> string \<Rightarrow> string" where
  "safe_keyword_text text fallback =
     (let words = keyword_words text
      in if length words < 2 \<and> fallback \<noteq> [] then fallback
         else if words \<noteq> [] then join '' '' (take 6 words)
         else (if fallback \<noteq> [] then fallback else ''abstract background''))"

text \<open>The number of words of a phrase, counted as \<^verbatim>\<open>len(phrase.split())\<close>.\<close>

definition word_count :: "string \<Rightarrow> nat" where
  "word_count s = length (split_ws s)"

text \<open>A word: not empty and free of whitespace.\<close>

definition is_word :: "string \<Rightarrow> bool" where
  "is_word w = (w \<noteq> [] \<and> list_all (\<lambda>c. \<not> is_space c) w)"

section \<open>Media and the external collaborators\<close>

text \<open>
  Durations are Python floats; the model takes them as rationals (every finite float is
  one). The only operation of the source on a duration is \<^verbatim>\<open>max\<close>, a comparison, which
  is exact on floats. The literal \<^verbatim>\<open>0.1\<close> denotes the double nearest to one tenth.
\<close>

definition min_clip_duration :: rat where
  "min_clip_duration = 3602879701896397 / 36028797018963968"

text \<open>
  A decoded still image: its width and height, and for a rendered placeholder the text
  drawn on it with the position of the text. The text that reaches the imaging library is
  a sequence of code points of any size (a natural number each), since what the library
  does with a caption depends on them.
\<close>

record image =
  img_size :: "nat \<times> nat"
  img_text :: "(nat list \<times> int \<times> int) option"

text \<open>
  A MoviePy clip as far as the source uses it: the playback duration, the frame size and
  the duration of the attached audio.
\<close>

record clip =
  clip_duration :: rat
  clip_size :: "nat \<times> nat"
  clip_audio :: "rat option"

datatype codec = Libx264 | Mpeg4

text \<open>
  What a run can raise: an exception of a collaborator, passed on as it is (the source
  catches nothing in \<^verbatim>\<open>build_video\<close> but the first encoding failure), or one of the
  interpreter.
\<close>

datatype 'e exn = Raised 'e | ValueError | ZeroDivisionError

text \<open>One entry of the search result: the renditions under \<^verbatim>\<open>src\<close>.\<close>

record photo =
  large :: "string option"
  medium :: "string option"
  original :: "string option"

text \<open>
  The collaborators of a run. The files of scene \<open>i\<close> (\<^verbatim>\<open>scene_i.mp3\<close> and
  \<^verbatim>\<open>scene_i.jpg\<close> in the temporary directory) are named by \<open>i\<close>. Each call that can
  raise returns a sum, \<open>Inl\<close> holding the exception.
  \<^item> \<^verbatim>\<open>synthesize i text\<close> stands for \<^verbatim>\<open>gTTS(text)\<close>, \<^verbatim>\<open>tts.save\<close> to the audio file of
    scene \<open>i\<close> and \<^verbatim>\<open>AudioFileClip\<close> of that file, and gives its duration;
  \<^item> \<^verbatim>\<open>api_key\<close> is the secret (empty when absent);
  \<^item> \<^verbatim>\<open>search\<close> and \<^verbatim>\<open>download\<close> are the two requests to the image provider, the second
    followed by the write to the image file; a failure is any exception inside the
    \<^verbatim>\<open>try\<close> block;
  \<^item> \<^verbatim>\<open>textwrap_wrap\<close> is \<^verbatim>\<open>textwrap.wrap(text, width=40)\<close>;
  \<^item> \<^verbatim>\<open>multiline_textsize\<close>, \<^verbatim>\<open>multiline_text\<close> and \<^verbatim>\<open>image_save\<close> are the
    measurement of the text, its drawing and \<^verbatim>\<open>img.save\<close> of the imaging library;
  \<^item> \<^verbatim>\<open>write_videofile\<close> is the encoder, by codec.
\<close>

record 'e env =
  synthesize :: "nat \<Rightarrow> string \<Rightarrow> 'e + rat"
  api_key :: string
  search :: "string \<Rightarrow> 'e + photo list"
  download :: "string \<Rightarrow> nat \<Rightarrow> 'e + image"
  textwrap_wrap :: "nat list \<Rightarrow> nat list list"
  multiline_textsize :: "nat list \<Rightarrow> 'e + int \<times> int"
  multiline_text :: "nat list \<Rightarrow> int \<times> int \<Rightarrow> 'e + unit"
  image_save :: "nat \<Rightarrow> image \<Rightarrow> 'e + unit"
  write_videofile :: "codec \<Rightarrow> clip list \<Rightarrow> 'e + unit"

text \<open>What a run does to the outside, in order.\<close>

datatype event =
    Synthesize nat string
  | SearchRequest string
  | DownloadRequest string
  | Warning string
  | Placeholder string
  | WriteVideo codec



fun is_synthesize :: "event \<Rightarrow> bool" where
  "is_synthesize (Synthesize i t) = True"
| "is_synthesize ev = False"

fun is_write :: "event \<Rightarrow> bool" where
  "is_write (WriteVideo c) = True"
| "is_write ev = False"

text \<open>\<^verbatim>\<open>a or b or c\<close> on the three renditions: the first that is present and not empty.\<close>

definition truthy :: "string option \<Rightarrow> bool" where
  "truthy u = (case u of None \<Rightarrow> False | Some s \<Rightarrow> s \<noteq> [])"

definition first_src :: "photo \<Rightarrow> string option" where
  "first_src p = (if truthy (large p) then large p
                  else if truthy (medium p) then medium p
                  else if truthy (original p) then original p else None)"

text \<open>
  \<^verbatim>\<open>fetch_image_from_pexels(query, dest_path)\<close>: the image written to the file when it
  returns True, \<^verbatim>\<open>None\<close> when it returns False.
\<close>

definition fetch_image_from_pexels ::
  "'e env \<Rightarrow> string \<Rightarrow> nat \<Rightarrow> event list \<Rightarrow> image option \<times> event list" where
  "fetch_image_from_pexels env query dest_path trace =
     (if api_key env = [] then (None, trace)
      else case search env query of
        Inl e \<Rightarrow> (None, trace @ [SearchRequest query, Warning query])
      | Inr photos \<Rightarrow>
          (case photos of
             [] \<Rightarrow> (None, trace @ [SearchRequest query])
           | p # ps \<Rightarrow>
               (case first_src p of
                  None \<Rightarrow> (None, trace @ [SearchRequest query])
                | Some url \<Rightarrow>
                    (case download env url dest_path of
                       Inl e \<Rightarrow>
                         (None, trace @ [SearchRequest query, DownloadRequest url, Warning query])
                     | Inr img \<Rightarrow>
                         (Some img, trace @ [SearchRequest query, DownloadRequest url])))))"

text \<open>
  Line 101 of the source: the caption wrapped, its lines joined by line feeds, cut at 400
  characters.
\<close>

definition wrapped_caption :: "'e env \<Rightarrow> nat list \<Rightarrow> nat list" where
  "wrapped_caption env text = take 400 (join [10] (textwrap_wrap env text))"

text \<open>
  \<^verbatim>\<open>make_placeholder_image(text, dest_path, size)\<close>, statement by statement.
  \<^verbatim>\<open>Image.new\<close> rejects a negative size; the measurement, the drawing and the save are
  calls of the library, and the function has no handler, so what they raise leaves the
  function; \<^verbatim>\<open>//\<close> rounds down.
\<close>

definition make_placeholder_image ::
  "'e env \<Rightarrow> nat list \<Rightarrow> nat \<Rightarrow> int \<times> int \<Rightarrow> 'e exn + image" where
  "make_placeholder_image env text dest_path sz =
     (if fst sz < 0 \<or> snd sz < 0 then Inl ValueError
      else
        let wrapped = wrapped_caption env text
        in case multiline_textsize env wrapped of
             Inl e \<Rightarrow> Inl (Raised e)
           | Inr (w, h) \<Rightarrow>
               (let x = (fst sz - w) div 2;
                    y = (snd sz - h) div 2
                in case multiline_text env wrapped (x, y) of
                     Inl e \<Rightarrow> Inl (Raised e)
                   | Inr u \<Rightarrow>
                       (let img = \<lparr>img_size = (nat (fst sz), nat (snd sz)),
                                   img_text = Some (wrapped, x, y)\<rparr>
                        in case image_save env dest_path img of
                             Inl e \<Rightarrow> Inl (Raised e)
                           | Inr v \<Rightarrow> Inr img)))"

text \<open>The clip operations of the library that \<^verbatim>\<open>build_video\<close> calls.\<close>

definition image_clip :: "image \<Rightarrow> rat \<Rightarrow> clip" where
  \<comment> \<open>\<^verbatim>\<open>ImageClip(img_file).set_duration(d)\<close>\<close>
  "image_clip img d = \<lparr>clip_duration = d, clip_size = img_size img, clip_audio = None\<rparr>"

definition resize_height :: "nat \<Rightarrow> clip \<Rightarrow> 'e exn + clip" where
  \<comment> \<open>\<^verbatim>\<open>resize(height=h)\<close>: the new width is \<^verbatim>\<open>int(w * h / old_h)\<close>\<close>
  "resize_height h c =
     (case clip_size c of (w, old_h) \<Rightarrow>
        if old_h = 0 then Inl ZeroDivisionError
        else Inr (c\<lparr>clip_size := (w * h div old_h, h)\<rparr>))"

definition on_color :: "nat \<times> nat \<Rightarrow> clip \<Rightarrow> clip" where
  \<comment> \<open>the clip centred on a canvas of the given size; the duration is kept\<close>
  "on_color sz c = c\<lparr>clip_size := sz\<rparr>"

definition set_audio :: "rat \<Rightarrow> clip \<Rightarrow> clip" where
  "set_audio a c = c\<lparr>clip_audio := Some a\<rparr>"

text \<open>The three statements of the loop body that build the clip of a scene.\<close>

definition build_clip :: "image \<Rightarrow> rat \<Rightarrow> 'e exn + clip" where
  "build_clip img d =
     (let ic = image_clip img (max d min_clip_duration)
      in case resize_height 720 ic of
           Inl e \<Rightarrow> Inl e
         | Inr ic' \<Rightarrow> Inr (set_audio d (on_color (1280, 720) ic')))"

text \<open>
  The body of the loop of \<^verbatim>\<open>build_video\<close> for scene \<open>i\<close>. The caption of the
  placeholder is the scene text cut at 120 characters, given as code points.
\<close>

definition process_scene ::
  "'e env \<Rightarrow> string \<Rightarrow> nat \<Rightarrow> string \<Rightarrow> event list \<Rightarrow> ('e exn + clip) \<times> event list" where
  "process_scene env topic_keywords i scene trace =
     (case synthesize env i scene of
        Inl e \<Rightarrow> (Inl (Raised e), trace @ [Synthesize i scene])
      | Inr d \<Rightarrow>
          (let query = safe_keyword_text scene topic_keywords
           in case fetch_image_from_pexels env query i (trace @ [Synthesize i scene]) of
                (Some img, trace') \<Rightarrow> (build_clip img d, trace')
              | (None, trace') \<Rightarrow>
                  (case make_placeholder_image env (map of_char (take 120 scene)) i
                          (1280, 720) of
                     Inl e \<Rightarrow> (Inl e, trace')
                   | Inr img \<Rightarrow> (build_clip img d, trace' @ [Placeholder (take 120 scene)]))))"

fun scene_loop ::
  "'e env \<Rightarrow> string \<Rightarrow> nat \<Rightarrow> string list \<Rightarrow> clip list \<Rightarrow> event list
     \<Rightarrow> ('e exn + clip list) \<times> event list" where
  "scene_loop env topic_keywords i [] clips trace = (Inr clips, trace)"
| "scene_loop env topic_keywords i (scene # rest) clips trace =
     (case process_scene env topic_keywords i scene trace of
        (Inl e, trace') \<Rightarrow> (Inl e, trace')
      | (Inr ic, trace') \<Rightarrow> scene_loop env topic_keywords (Suc i) rest (clips @ [ic]) trace')"

text \<open>
  \<^verbatim>\<open>build_video\<close>: the loop, the concatenation (which raises on an empty list of clips)
  and the encoding with its single retry. A run that ends well returns the codec of the
  file it wrote.
\<close>

definition build_video ::
  "'e env \<Rightarrow> string list \<Rightarrow> string \<Rightarrow> ('e exn + codec) \<times> event list" where
  "build_video env scenes topic_keywords =
     (case scene_loop env topic_keywords 0 scenes [] [] of
        (Inl e, trace) \<Rightarrow> (Inl e, trace)
      | (Inr clips, trace) \<Rightarrow>
          if clips = [] then (Inl ValueError, trace)
          else
            (case write_videofile env Libx264 clips of
               Inr u \<Rightarrow> (Inr Libx264, trace @ [WriteVideo Libx264])
             | Inl e1 \<Rightarrow>
                 (case write_videofile env Mpeg4 clips of
                    Inr u \<Rightarrow> (Inr Mpeg4, trace @ [WriteVideo Libx264, WriteVideo Mpeg4])
                  | Inl e2 \<Rightarrow>
                      (Inl (Raised e2), trace @ [WriteVideo Libx264, WriteVideo Mpeg4]))))"

section \<open>A sample environment\<close>

text \<open>
  Collaborators for concrete runs. Wrapping cuts the text into lines of 40 characters,
  which is what \<^verbatim>\<open>textwrap.wrap\<close> gives for a text without whitespace and for a text of
  one line of at most 40 characters with single spaces inside. The font is taken to have
  characters of 6 by 11 pixels, lines 4 pixels apart, and, as a bitmap font of 256
  glyphs, to raise on a code point above 255. The image provider cannot be reached, the
  image file can be written, the narration and the encoder are given.
\<close>

fun pieces40 :: "'a list \<Rightarrow> 'a list list" where
  "pieces40 [] = []"
| "pieces40 (x # xs) = take 40 (x # xs) # pieces40 (drop 39 xs)"

fun line_lengths :: "nat \<Rightarrow> nat list \<Rightarrow> nat list" where
  "line_lengths n [] = [n]"
| "line_lengths n (c # cs) = (if c = 10 then n # line_lengths 0 cs else line_lengths (Suc n) cs)"

definition bitmap_textsize :: "nat list \<Rightarrow> string + int \<times> int" where
  "bitmap_textsize t =
     (if list_ex (\<lambda>c. 255 < c) t then Inl ''UnicodeEncodeError''
      else Inr (6 * int (fold max (line_lengths 0 t) 0),
                15 * int (length (line_lengths 0 t)) - 4))"

definition bitmap_text :: "nat list \<Rightarrow> int \<times> int \<Rightarrow> string + unit" where
  "bitmap_text t pos = (if list_ex (\<lambda>c. 255 < c) t then Inl ''UnicodeEncodeError'' else Inr ())"

text \<open>A narration that fails on the empty text and on the text \<^verbatim>\<open>bad\<close>, and one that
  fails at one scene index, whatever the text.\<close>

definition steady :: "rat \<Rightarrow> nat \<Rightarrow> string \<Rightarrow> string + rat" where
  "steady d i t = (if t = [] \<or> t = ''bad'' then Inl ''gTTSError'' else Inr d)"

definition fails_at :: "nat \<Rightarrow> rat \<Rightarrow> nat \<Rightarrow> string \<Rightarrow> string + rat" where
  "fails_at k d i t = (if i = k then Inl ''gTTSError'' else Inr d)"

definition sample_env ::
  "string \<Rightarrow> (nat \<Rightarrow> string \<Rightarrow> string + rat) \<Rightarrow> (codec \<Rightarrow> string + unit) \<Rightarrow> string env" where
  "sample_env key narrate enc =
     \<lparr>synthesize = narrate,
      api_key = key,
      search = (\<lambda>q. Inl ''ConnectionError''),
      download = (\<lambda>u p. Inl ''ConnectionError''),
      textwrap_wrap = pieces40,
      multiline_textsize = bitmap_textsize,
      multiline_text = bitmap_text,
      image_save = (\<lambda>p img. Inr ()),
      write_videofile = (\<lambda>c clips. enc c)\<rparr>"

text \<open>What every clip of a run satisfies.\<close>

definition good_clip :: "clip \<Rightarrow> bool" where
  "good_clip c = (min_clip_duration \<le> clip_duration c \<and> clip_size c = (1280, 720))"

section \<open>Notions used in the statements about runs\<close>

text \<open>
  The index of the failing scene, as the specification speaks of it: the position of the
  first scene whose narration cannot be synthesised.
\<close>

fun failing_index :: "'e env \<Rightarrow> nat \<Rightarrow> string list \<Rightarrow> nat option" where
  "failing_index env i [] = None"
| "failing_index env i (s # ss) =
     (case synthesize env i s of Inl e \<Rightarrow> Some i | Inr d \<Rightarrow> failing_index env (Suc i) ss)"


text \<open>An event that is neither a synthesis nor an encoding.\<close>

definition quiet :: "event \<Rightarrow> bool" where
  "quiet ev = (\<not> is_synthesize ev \<and> \<not> is_write ev)"



definition x264_fails :: "codec \<Rightarrow> string + unit" where
  "x264_fails c = (if c = Libx264 then Inl ''libx264 missing'' else Inr ())"

definition both_fail :: "codec \<Rightarrow> string + unit" where
  "both_fail c = (if c = Libx264 then Inl ''libx264 missing'' else Inl ''mpeg4 missing'')"

section \<open>Whitespace and trimming\<close>

lemma strip_all_space: "\<forall>c \<in> set s. is_space c \<Longrightarrow> strip s = []"
proof -
  assume "\<forall>c \<in> set s. is_space c"
  then have "dropWhile is_space s = []" by simp
  then show ?thesis by (simp add: strip_def del: dropWhile_eq_Nil_conv)
qed

lemma strip_Nil [simp]: "strip [] = []"
  by (simp add: strip_def)

lemma strip_Nil_iff: "strip s = [] \<longleftrightarrow> (\<forall>c \<in> set s. is_space c)"
proof
  assume h: "strip s = []"
  then have "dropWhile is_space (rev (dropWhile is_space s)) = []"
    by (simp add: strip_def)
  then have "\<forall>c \<in> set (dropWhile is_space s). is_space c"
    by simp
  then have "dropWhile is_space s = []"
    by (metis hd_dropWhile list.set_sel(1))
  then show "\<forall>c \<in> set s. is_space c"
    by simp
next
  assume "\<forall>c \<in> set s. is_space c"
  then show "strip s = []" by (rule strip_all_space)
qed

section \<open>Empty and whitespace-only scripts\<close>

text \<open>
  C9. For the empty script and for every script made of whitespace only,
  \<^verbatim>\<open>split_into_scenes\<close> returns a list of exactly one element, and that element is the
  empty string (the trimmed script), which holds no character that is not whitespace.
\<close>

theorem split_into_scenes_blank:
  assumes "\<forall>c \<in> set script. is_space c"
  shows "split_into_scenes script = [[]]
         \<and> length (split_into_scenes script) = 1
         \<and> (\<forall>c \<in> set (hd (split_into_scenes script)). is_space c)"
proof -
  have s: "strip script = []" using assms by (rule strip_all_space)
  have r: "split_into_scenes script = [[]]"
    by (simp add: split_into_scenes_def s sentences_of_def re_split_sentences_def)
  show ?thesis by (simp add: r)
qed

theorem split_into_scenes_blank_witness:
  "list_all is_space '' \<newline>  '' \<and> split_into_scenes '' \<newline>  '' = [[]]
   \<and> split_into_scenes [] = [[]]"
proof -
  have h: "\<forall>c \<in> set '' \<newline>  ''. is_space c" by (simp add: is_space_def)
  have e: "\<forall>c \<in> set ([] :: string). is_space c" by simp
  show ?thesis
    using h split_into_scenes_blank [OF h] split_into_scenes_blank [OF e]
    by (simp add: list_all_iff)
qed

section \<open>Scripts with blank lines\<close>

lemma contains_blank_line_nonempty: "contains_blank_line s \<Longrightarrow> s \<noteq> []"
  by (cases s) auto

lemma last_dropWhile:
  "xs \<noteq> [] \<Longrightarrow> \<not> P (last xs) \<Longrightarrow> dropWhile P xs \<noteq> [] \<and> last (dropWhile P xs) = last xs"
  by (induction xs) (auto split: if_splits)

lemma strip_hd_not_space:
  assumes "strip s \<noteq> []"
  shows "\<not> is_space (hd (strip s))"
proof -
  let ?d = "dropWhile is_space s"
  have d: "?d \<noteq> []"
  proof
    assume "?d = []"
    then have "strip s = []" by (simp add: strip_def del: dropWhile_eq_Nil_conv)
    then show False using assms by simp
  qed
  then have h: "\<not> is_space (hd ?d)" by (rule hd_dropWhile)
  have r: "rev ?d \<noteq> []" using d by simp
  have l: "\<not> is_space (last (rev ?d))" using h d by (simp add: last_rev)
  from last_dropWhile [of "rev ?d" is_space, OF r l]
  have "dropWhile is_space (rev ?d) \<noteq> []"
    and "last (dropWhile is_space (rev ?d)) = last (rev ?d)" by blast+
  then have "hd (strip s) = hd ?d"
    using d by (simp add: strip_def hd_rev last_rev)
  then show ?thesis using h by simp
qed

lemma split_blank_aux_first:
  "\<exists>x ps. split_blank_aux cur s = (rev cur @ x) # ps"
  by (induction cur s rule: split_blank_aux.induct) auto

lemma split_blank_first:
  assumes "s \<noteq> []" "hd s \<noteq> CHR 0x0A"
  shows "\<exists>x ps. split_blank s = (hd s # x) # ps"
proof (cases s)
  case Nil
  then show ?thesis using assms by simp
next
  case (Cons c t)
  show ?thesis
  proof (cases t)
    case Nil
    then show ?thesis using Cons by (simp add: split_blank_def)
  next
    case (Cons d u)
    obtain x ps where "split_blank_aux [c] (d # u) = (rev [c] @ x) # ps"
      using split_blank_aux_first by blast
    then show ?thesis using Cons \<open>s = c # t\<close> assms by (simp add: split_blank_def)
  qed
qed

lemma blank_parts_nonempty:
  assumes "contains_blank_line (strip script)"
  shows "map strip (filter (\<lambda>p. strip p \<noteq> []) (split_blank (strip script))) \<noteq> []"
proof -
  let ?t = "strip script"
  have ne: "?t \<noteq> []" using assms by (rule contains_blank_line_nonempty)
  then have ns: "\<not> is_space (hd ?t)" by (rule strip_hd_not_space)
  then have "hd ?t \<noteq> CHR 0x0A" by (auto simp: is_space_def)
  from split_blank_first [OF ne this]
  obtain x ps where sp: "split_blank ?t = (hd ?t # x) # ps" by blast
  have "strip (hd ?t # x) \<noteq> []" using ns by (auto simp: strip_Nil_iff)
  then show ?thesis by (simp add: sp)
qed

text \<open>
  C4. When the trimmed script contains a blank-line separator, \<^verbatim>\<open>split_into_scenes\<close>
  returns the parts between the separators, each trimmed, the empty ones left out, in the
  order of the script: the first part starts with the first character of the trimmed
  script, which is not whitespace, so the list is never empty and the sentence path is
  never taken.
\<close>

theorem split_into_scenes_blank_lines:
  assumes "contains_blank_line (strip script)"
  shows "split_into_scenes script =
           filter (\<lambda>p. p \<noteq> []) (map strip (split_blank (strip script)))"
proof -
  have "split_into_scenes script =
          map strip (filter (\<lambda>p. strip p \<noteq> []) (split_blank (strip script)))"
    using assms blank_parts_nonempty [OF assms] by (simp add: split_into_scenes_def)
  then show ?thesis by (simp add: filter_map comp_def)
qed

lemma split_blank_aux_nonempty: "split_blank_aux cur s \<noteq> []"
  by (induction cur s rule: split_blank_aux.induct) auto

lemma join_Cons: "ys \<noteq> [] \<Longrightarrow> join sep (x # ys) = x @ sep @ join sep ys"
  by (cases ys) auto

lemma join_split_blank_aux:
  "join ''\<newline>\<newline>'' (split_blank_aux cur s) = rev cur @ s"
  by (induction cur s rule: split_blank_aux.induct)
     (auto simp: join_Cons split_blank_aux_nonempty)

lemma join_split_blank: "join ''\<newline>\<newline>'' (split_blank s) = s"
  by (simp add: split_blank_def join_split_blank_aux)

theorem split_into_scenes_blank_lines_witness:
  "contains_blank_line (strip ''  Hello world. This is scene one.\<newline>\<newline>\<newline>This is scene two.\<newline>\<newline> \<newline>\<newline>End  '')
   \<and> split_into_scenes ''  Hello world. This is scene one.\<newline>\<newline>\<newline>This is scene two.\<newline>\<newline> \<newline>\<newline>End  ''
       = [''Hello world. This is scene one.'', ''This is scene two.'', ''End'']"
proof -
  let ?s = "''  Hello world. This is scene one.\<newline>\<newline>\<newline>This is scene two.\<newline>\<newline> \<newline>\<newline>End  ''"
  have st: "strip ?s = ''Hello world. This is scene one.\<newline>\<newline>\<newline>This is scene two.\<newline>\<newline> \<newline>\<newline>End''"
    by (simp add: strip_def is_space_def)
  have h: "contains_blank_line (strip ?s)" unfolding st by simp
  have sp: "split_blank (strip ?s) = [''Hello world. This is scene one.'', ''\<newline>This is scene two.'', '' '', ''End'']"
    unfolding st by (simp add: split_blank_def)
  show ?thesis
    using h split_into_scenes_blank_lines [OF h] unfolding sp
    by (simp add: strip_def is_space_def)
qed

section \<open>Chunks of three sentences\<close>

lemma chunks_concat: "concat (chunks_of_three xs) = xs"
  by (induction xs rule: chunks_of_three.induct) auto

lemma chunks_sizes: "g \<in> set (chunks_of_three xs) \<Longrightarrow> 1 \<le> length g \<and> length g \<le> 3"
  by (induction xs rule: chunks_of_three.induct) auto

lemma chunks_full: "g \<in> set (butlast (chunks_of_three xs)) \<Longrightarrow> length g = 3"
  by (induction xs rule: chunks_of_three.induct) (auto split: if_splits)

lemma chunk_loop_chunks:
  "length chunk < 3 \<Longrightarrow>
   finish_chunks (chunk_loop scenes chunk ss) =
     scenes @ map (join '' '') (chunks_of_three (chunk @ ss))"
proof (induction ss arbitrary: scenes chunk)
  case Nil
  then show ?case
    by (cases chunk rule: chunks_of_three.cases) (auto simp: finish_chunks_def)
next
  case (Cons s ss)
  show ?case
  proof (cases "length chunk = 2")
    case True
    then obtain a b where c: "chunk = [a, b]"
      by (metis (no_types, opaque_lifting) Suc_length_conv length_0_conv numeral_2_eq_2)
    show ?thesis using Cons.IH [of "[]" "scenes @ [join '' '' [a, b, s]]"] by (simp add: c)
  next
    case False
    then have l: "length (chunk @ [s]) < 3" using Cons.prems by simp
    show ?thesis using Cons.IH [OF l, of scenes] False Cons.prems by simp
  qed
qed

lemma join_nonempty: "xs \<noteq> [] \<Longrightarrow> \<forall>x \<in> set xs. x \<noteq> [] \<Longrightarrow> join sep xs \<noteq> []"
  by (induction sep xs rule: join.induct) auto

lemma sentences_nonempty: "s \<in> set (sentences_of script) \<Longrightarrow> s \<noteq> []"
  by (auto simp: sentences_of_def)

lemma split_into_scenes_sentences:
  assumes "\<not> contains_blank_line (strip script)" "sentences_of (strip script) \<noteq> []"
  shows "split_into_scenes script =
           map (join '' '') (chunks_of_three (sentences_of (strip script)))"
proof -
  let ?ss = "sentences_of (strip script)"
  have f: "finish_chunks (chunk_loop [] [] ?ss) = map (join '' '') (chunks_of_three ?ss)"
    using chunk_loop_chunks [of "[]" "[]" ?ss] by simp
  have ne: "chunks_of_three ?ss \<noteq> []"
    using assms(2) by (cases ?ss rule: chunks_of_three.cases) auto
  obtain scenes chunk where cl: "chunk_loop [] [] ?ss = (scenes, chunk)"
    by (cases "chunk_loop [] [] ?ss") auto
  let ?fin = "if chunk \<noteq> [] then scenes @ [join '' '' chunk] else scenes"
  have fin: "?fin = map (join '' '') (chunks_of_three ?ss)"
    using f by (simp add: cl finish_chunks_def)
  then have "?fin \<noteq> []" using ne by simp
  then have "split_into_scenes script = ?fin"
    using assms(1) by (simp add: split_into_scenes_def cl)
  then show ?thesis using fin by simp
qed

lemma chunk_subset: "g \<in> set (chunks_of_three xs) \<Longrightarrow> set g \<subseteq> set xs"
  by (induction xs rule: chunks_of_three.induct) auto

text \<open>
  C5. When the trimmed script has no blank-line separator and holds at least one sentence,
  the scenes are the groups of three consecutive sentences, each group joined with single
  spaces: the groups put together give the sentences back in order, every group has one to
  three sentences, every group but the last has exactly three, and no scene is empty.
\<close>

theorem split_into_scenes_chunks:
  assumes "\<not> contains_blank_line (strip script)" "sentences_of (strip script) \<noteq> []"
  shows "split_into_scenes script =
           map (join '' '') (chunks_of_three (sentences_of (strip script)))
         \<and> concat (chunks_of_three (sentences_of (strip script))) = sentences_of (strip script)
         \<and> (\<forall>g \<in> set (chunks_of_three (sentences_of (strip script))).
               1 \<le> length g \<and> length g \<le> 3)
         \<and> (\<forall>g \<in> set (butlast (chunks_of_three (sentences_of (strip script)))).
               length g = 3)
         \<and> (\<forall>scene \<in> set (split_into_scenes script). scene \<noteq> [])"
proof -
  let ?ss = "sentences_of (strip script)"
  have eq: "split_into_scenes script = map (join '' '') (chunks_of_three ?ss)"
    using assms by (rule split_into_scenes_sentences)
  have ne: "scene \<noteq> []" if "scene \<in> set (split_into_scenes script)" for scene
  proof -
    from that obtain g where g: "g \<in> set (chunks_of_three ?ss)" "scene = join '' '' g"
      by (auto simp: eq)
    have "set g \<subseteq> set ?ss" using g(1) by (rule chunk_subset)
    then have a: "\<forall>x \<in> set g. x \<noteq> []" using sentences_nonempty by blast
    have b: "g \<noteq> []" using chunks_sizes [OF g(1)] by auto
    show ?thesis unfolding g(2) using b a by (rule join_nonempty)
  qed
  have c1: "concat (chunks_of_three ?ss) = ?ss" by (rule chunks_concat)
  have c2: "\<forall>g \<in> set (chunks_of_three ?ss). 1 \<le> length g \<and> length g \<le> 3"
    using chunks_sizes by blast
  have c3: "\<forall>g \<in> set (butlast (chunks_of_three ?ss)). length g = 3"
    using chunks_full by blast
  have c4: "\<forall>scene \<in> set (split_into_scenes script). scene \<noteq> []"
    using ne by blast
  show ?thesis using eq c1 c2 c3 c4 by (intro conjI)
qed


theorem split_into_scenes_chunks_witness:
  "\<not> contains_blank_line (strip ''A. B!  C?\<newline>D... E.f'')
   \<and> sentences_of (strip ''A. B!  C?\<newline>D... E.f'')
       = [''A.'', ''B!'', ''C?'', ''D...'', ''E.f'']
   \<and> split_into_scenes ''A. B!  C?\<newline>D... E.f'' = [''A. B! C?'', ''D... E.f'']"
proof -
  let ?s = "''A. B!  C?\<newline>D... E.f''"
  have st: "strip ?s = ?s" by (simp add: strip_def is_space_def)
  have h1: "\<not> contains_blank_line (strip ?s)" unfolding st by simp
  have rs: "re_split_sentences ?s = [''A.'', ''B!'', ''C?'', ''D...'', ''E.f'']"
    by (simp add: re_split_sentences_def is_space_def is_terminator_def)
  have ss: "sentences_of (strip ?s) = [''A.'', ''B!'', ''C?'', ''D...'', ''E.f'']"
    unfolding st sentences_of_def rs by (simp add: strip_def is_space_def)
  have h2: "sentences_of (strip ?s) \<noteq> []" unfolding ss by simp
  show ?thesis
    using h1 ss split_into_scenes_chunks [OF h1 h2] unfolding ss by simp
qed

section \<open>Words of the keyword phrase\<close>

lemma split_ws_aux_words:
  "list_all (\<lambda>c. \<not> is_space c) cur \<Longrightarrow> list_all is_word (split_ws_aux cur s)"
  by (induction cur s rule: split_ws_aux.induct) (simp_all add: is_word_def)

lemma split_ws_words: "list_all is_word (split_ws s)"
  by (simp add: split_ws_def split_ws_aux_words)

lemma split_ws_aux_word:
  "list_all (\<lambda>c. \<not> is_space c) w \<Longrightarrow> split_ws_aux cur (w @ rest) = split_ws_aux (rev w @ cur) rest"
  by (induction w arbitrary: cur) simp_all


lemma space_is_space: "is_space (CHR '' '')"
  by (simp add: is_space_def)

lemma split_ws_aux_one:
  assumes "is_word x"
  shows "split_ws_aux [] x = [x]"
proof -
  have "split_ws_aux [] (x @ []) = split_ws_aux (rev x @ []) []"
    using assms by (intro split_ws_aux_word) (simp add: is_word_def)
  then show ?thesis using assms by (simp add: is_word_def)
qed

lemma split_ws_aux_more:
  assumes "is_word x"
  shows "split_ws_aux [] (x @ CHR '' '' # rest) = x # split_ws_aux [] rest"
proof -
  have "split_ws_aux [] (x @ CHR '' '' # rest) = split_ws_aux (rev x @ []) (CHR '' '' # rest)"
    using assms by (intro split_ws_aux_word) (simp add: is_word_def)
  then show ?thesis using assms by (simp add: is_word_def space_is_space)
qed

lemma split_ws_join:
  "list_all is_word ws \<Longrightarrow> split_ws_aux [] (join '' '' ws) = ws"
proof (induction ws)
  case Nil
  then show ?case by simp
next
  case (Cons x ws)
  show ?case
  proof (cases ws)
    case Nil
    then show ?thesis using Cons.prems by (simp add: split_ws_aux_one)
  next
    case (Cons y ys)
    then have "join '' '' (x # ws) = x @ CHR '' '' # join '' '' ws" by simp
    then show ?thesis using Cons.prems Cons.IH by (simp add: split_ws_aux_more)
  qed
qed

lemma word_count_join:
  "list_all is_word ws \<Longrightarrow> word_count (join '' '' ws) = length ws"
  by (simp add: word_count_def split_ws_def split_ws_join)

lemma list_all_take: "list_all P xs \<Longrightarrow> list_all P (take n xs)"
  by (auto simp: list_all_iff dest: in_set_takeD)


lemma default_words: "word_count ''abstract background'' = 2"
  by (simp add: word_count_def split_ws_def is_space_def)

lemma take_words: "word_count (join '' '' (take 6 (keyword_words text))) \<le> 6"
proof -
  have w: "list_all is_word (take 6 (keyword_words text))"
    by (simp add: keyword_words_def split_ws_words list_all_take)
  show ?thesis by (simp add: word_count_join [OF w])
qed

text \<open>
  C2 (as amended). \<^verbatim>\<open>safe_keyword_text\<close> returns a phrase of at most 6 words whenever
  the scene text has at least two words after cleaning, or the fallback itself has at most
  6 words (the empty fallback included). With fewer than two words and a non-empty
  fallback the fallback is returned as it is, whatever its length.
\<close>

theorem safe_keyword_text_words:
  "(2 \<le> length (keyword_words text) \<or> word_count fallback \<le> 6 \<longrightarrow>
      word_count (safe_keyword_text text fallback) \<le> 6)
   \<and> (length (keyword_words text) < 2 \<and> fallback \<noteq> [] \<longrightarrow>
      safe_keyword_text text fallback = fallback)"
proof (intro conjI impI)
  assume v: "length (keyword_words text) < 2 \<and> fallback \<noteq> []"
  then show "safe_keyword_text text fallback = fallback"
    by (simp add: safe_keyword_text_def)
next
  assume h: "2 \<le> length (keyword_words text) \<or> word_count fallback \<le> 6"
  show "word_count (safe_keyword_text text fallback) \<le> 6"
  proof (cases "length (keyword_words text) < 2 \<and> fallback \<noteq> []")
    case True
    then have "safe_keyword_text text fallback = fallback"
      by (simp add: safe_keyword_text_def)
    then show ?thesis using h True by simp
  next
    case False
    show ?thesis
    proof (cases "keyword_words text = []")
      case True
      then have "fallback = []" using False by simp
      then have "safe_keyword_text text fallback = ''abstract background''"
        using True by (simp add: safe_keyword_text_def)
      then show ?thesis by (simp add: default_words)
    next
      case ne: False
      then have "safe_keyword_text text fallback = join '' '' (take 6 (keyword_words text))"
        using False unfolding safe_keyword_text_def Let_def
        by (simp only: if_False if_True not_False_eq_True simp_thms)
      then show ?thesis by (simp only: take_words)
    qed
  qed
qed

theorem safe_keyword_text_words_witness:
  "2 \<le> length (keyword_words ''Red, green; blue & gold -- pink/grey and tan!'')
   \<and> safe_keyword_text ''Red, green; blue & gold -- pink/grey and tan!'' ''colours''
       = ''Red green blue gold pinkgrey and''
   \<and> word_count (safe_keyword_text ''Red, green; blue & gold -- pink/grey and tan!'' ''colours'') \<le> 6
   \<and> length (keyword_words ''Sunset!'') < 2
   \<and> safe_keyword_text ''Sunset!'' ''red sky at dusk'' = ''red sky at dusk''"
proof -
  have kw: "keyword_words ''Red, green; blue & gold -- pink/grey and tan!''
      = [''Red'', ''green'', ''blue'', ''gold'', ''pinkgrey'', ''and'', ''tan'']"
    by (simp add: keyword_words_def is_alnum_def is_space_def strip_def split_ws_def)
  have h: "2 \<le> length (keyword_words ''Red, green; blue & gold -- pink/grey and tan!'')
      \<or> word_count ''colours'' \<le> 6"
    by (simp add: kw)
  have r: "safe_keyword_text ''Red, green; blue & gold -- pink/grey and tan!'' ''colours''
      = ''Red green blue gold pinkgrey and''"
    by (simp add: safe_keyword_text_def kw)
  have k1: "keyword_words ''Sunset!'' = [''Sunset'']"
    by (simp add: keyword_words_def is_alnum_def is_space_def strip_def split_ws_def)
  have v: "length (keyword_words ''Sunset!'') < 2 \<and> ''red sky at dusk'' \<noteq> []"
    by (simp add: k1)
  have b: "word_count (safe_keyword_text ''Red, green; blue & gold -- pink/grey and tan!'' ''colours'') \<le> 6"
    using safe_keyword_text_words [of "''Red, green; blue & gold -- pink/grey and tan!''" "''colours''"] h
    by blast
  have f: "safe_keyword_text ''Sunset!'' ''red sky at dusk'' = ''red sky at dusk''"
    using safe_keyword_text_words [of "''Sunset!''" "''red sky at dusk''"] v by blast
  show ?thesis using b f r v by (simp add: kw)
qed

text \<open>
  The claim as stated fails: a one-word scene text makes the function return an eight-word
  fallback unchanged.
\<close>

theorem safe_keyword_text_fallback_counterexample:
  "safe_keyword_text ''Sunset!'' ''wide aerial shot of a calm ocean sunset''
     = ''wide aerial shot of a calm ocean sunset''
   \<and> word_count (safe_keyword_text ''Sunset!'' ''wide aerial shot of a calm ocean sunset'') = 8
   \<and> \<not> word_count (safe_keyword_text ''Sunset!'' ''wide aerial shot of a calm ocean sunset'') \<le> 6"
proof -
  have kw: "keyword_words ''Sunset!'' = [''Sunset'']"
    by (simp add: keyword_words_def is_alnum_def is_space_def strip_def split_ws_def)
  have r: "safe_keyword_text ''Sunset!'' ''wide aerial shot of a calm ocean sunset''
      = ''wide aerial shot of a calm ocean sunset''"
    by (simp add: safe_keyword_text_def kw)
  have n: "word_count ''wide aerial shot of a calm ocean sunset'' = 8"
    by (simp add: word_count_def split_ws_def is_space_def)
  show ?thesis unfolding r n by simp
qed

section \<open>The clip of a scene\<close>

lemma min_clip_duration_tenth: "1 / 10 \<le> min_clip_duration"
  by (simp add: min_clip_duration_def)

lemma build_clip_ok:
  assumes "0 < snd (img_size img)"
  shows "build_clip img d =
           Inr \<lparr>clip_duration = max d min_clip_duration, clip_size = (1280, 720),
                clip_audio = Some d\<rparr>"
  using assms
  by (cases "img_size img")
     (simp add: build_clip_def image_clip_def resize_height_def on_color_def set_audio_def)

lemma build_clip_duration:
  assumes "build_clip img d = Inr c"
  shows "clip_duration c = max d min_clip_duration \<and> clip_size c = (1280, 720)"
proof (cases "snd (img_size img) = 0")
  case True
  then have "build_clip img d = (Inl ZeroDivisionError :: 'a exn + clip)"
    by (cases "img_size img")
       (simp add: build_clip_def image_clip_def resize_height_def)
  then show ?thesis using assms by simp
next
  case False
  then have "0 < snd (img_size img)" by simp
  then have "build_clip img d =
      (Inr \<lparr>clip_duration = max d min_clip_duration, clip_size = (1280, 720),
           clip_audio = Some d\<rparr> :: 'a exn + clip)"
    by (rule build_clip_ok)
  then show ?thesis using assms by auto
qed

text \<open>
  C1 (as amended). For every image of positive height and every narration duration of at
  least the minimum clip duration (the float 0.1), the clip built for the scene plays for
  exactly the narration duration, on a canvas of 1280 by 720 whatever the size of the
  image.
\<close>

theorem build_clip_exact:
  assumes "min_clip_duration \<le> d" "0 < snd (img_size img)"
  shows "build_clip img d =
           Inr \<lparr>clip_duration = d, clip_size = (1280, 720), clip_audio = Some d\<rparr>"
  using build_clip_ok [OF assms(2), of d] assms(1) by (simp add: max_def)

theorem build_clip_exact_witness:
  "min_clip_duration \<le> 21 / 5
   \<and> build_clip \<lparr>img_size = (400, 300), img_text = None\<rparr> (21 / 5)
       = Inr \<lparr>clip_duration = 21 / 5, clip_size = (1280, 720), clip_audio = Some (21 / 5)\<rparr>
   \<and> build_clip \<lparr>img_size = (2000, 500), img_text = None\<rparr> (21 / 5)
       = Inr \<lparr>clip_duration = 21 / 5, clip_size = (1280, 720), clip_audio = Some (21 / 5)\<rparr>"
proof -
  have h: "min_clip_duration \<le> 21 / 5" by (simp add: min_clip_duration_def)
  show ?thesis
    using h build_clip_exact [OF h, of "\<lparr>img_size = (400, 300), img_text = None\<rparr>"]
      build_clip_exact [OF h, of "\<lparr>img_size = (2000, 500), img_text = None\<rparr>"]
    by simp
qed

text \<open>
  The claim as stated fails below the minimum: a narration of one sixteenth of a second
  gives a clip that plays for the minimum clip duration.
\<close>

theorem build_clip_short_counterexample:
  "(0 :: rat) < 1 / 16
   \<and> build_clip \<lparr>img_size = (400, 300), img_text = None\<rparr> (1 / 16)
       = Inr \<lparr>clip_duration = min_clip_duration, clip_size = (1280, 720),
              clip_audio = Some (1 / 16)\<rparr>
   \<and> min_clip_duration \<noteq> 1 / 16"
  by (simp add: build_clip_def image_clip_def resize_height_def on_color_def set_audio_def
      min_clip_duration_def)

lemma process_scene_clip:
  assumes "process_scene env topic i scene tr = (Inr c, tr')"
  shows "\<exists>d. synthesize env i scene = Inr d \<and> clip_duration c = max d min_clip_duration
             \<and> clip_size c = (1280, 720)"
  using assms
  by (auto simp: process_scene_def Let_def dest: build_clip_duration
      split: sum.splits prod.splits option.splits)

lemma process_scene_good:
  "process_scene env topic i scene tr = (Inr c, tr') \<Longrightarrow> good_clip c"
  by (drule process_scene_clip) (auto simp: good_clip_def)

lemma scene_loop_good:
  "scene_loop env topic i scenes clips tr = (Inr cs, tr') \<Longrightarrow> list_all good_clip clips
   \<Longrightarrow> list_all good_clip cs"
proof (induction scenes arbitrary: i clips tr)
  case Nil
  then show ?case by simp
next
  case (Cons s scenes)
  obtain r tr1 where p: "process_scene env topic i s tr = (r, tr1)"
    by (cases "process_scene env topic i s tr") auto
  show ?case
  proof (cases r)
    case (Inl e)
    then show ?thesis using Cons.prems p by simp
  next
    case (Inr ic)
    have g: "good_clip ic" using p Inr process_scene_good by blast
    have "scene_loop env topic (Suc i) scenes (clips @ [ic]) tr1 = (Inr cs, tr')"
      using Cons.prems(1) p Inr by simp
    moreover have "list_all good_clip (clips @ [ic])" using Cons.prems(2) g by simp
    ultimately show ?thesis by (rule Cons.IH)
  qed
qed

text \<open>
  C10. Every clip of a run plays for at least the minimum clip duration, hence for at
  least a tenth of a second; and when the narration of a scene is shorter than the
  minimum, its clip plays for exactly the minimum.
\<close>

theorem clip_duration_clamped:
  "(scene_loop env topic i scenes [] tr = (Inr cs, tr') \<longrightarrow>
      (\<forall>c \<in> set cs. min_clip_duration \<le> clip_duration c \<and> 1 / 10 \<le> clip_duration c))
   \<and> (process_scene env topic i scene tr = (Inr c, tr') \<and> synthesize env i scene = Inr d
        \<and> d < min_clip_duration \<longrightarrow> clip_duration c = min_clip_duration)"
proof (intro conjI impI)
  assume "scene_loop env topic i scenes [] tr = (Inr cs, tr')"
  then have "list_all good_clip cs" by (rule scene_loop_good) simp
  then show "\<forall>c \<in> set cs. min_clip_duration \<le> clip_duration c \<and> 1 / 10 \<le> clip_duration c"
    using min_clip_duration_tenth by (auto simp: list_all_iff good_clip_def)
next
  assume a: "process_scene env topic i scene tr = (Inr c, tr') \<and> synthesize env i scene = Inr d
      \<and> d < min_clip_duration"
  then obtain d' where "synthesize env i scene = Inr d'" "clip_duration c = max d' min_clip_duration"
    using process_scene_clip by blast
  then show "clip_duration c = min_clip_duration" using a by (simp add: max_def)
qed

theorem clip_duration_clamped_witness:
  "scene_loop (sample_env [] (steady (1 / 16)) (\<lambda>c. Inr ())) [] 0 [''Hi''] [] []
     = (Inr [\<lparr>clip_duration = min_clip_duration, clip_size = (1280, 720),
              clip_audio = Some (1 / 16)\<rparr>],
        [Synthesize 0 ''Hi'', Placeholder ''Hi''])
   \<and> (1 / 16 :: rat) < min_clip_duration
   \<and> 1 / 10 \<le> clip_duration \<lparr>clip_duration = min_clip_duration, clip_size = (1280, 720),
              clip_audio = Some (1 / 16)\<rparr>"
proof -
  let ?E = "sample_env [] (steady (1 / 16)) (\<lambda>c. Inr ())"
  let ?C = "\<lparr>clip_duration = min_clip_duration, clip_size = (1280, 720),
              clip_audio = Some (1 / 16)\<rparr>"
  have e: "scene_loop ?E [] 0 [''Hi''] [] [] = (Inr [?C], [Synthesize 0 ''Hi'', Placeholder ''Hi''])"
    by (simp add: sample_env_def steady_def bitmap_textsize_def bitmap_text_def
        process_scene_def fetch_image_from_pexels_def make_placeholder_image_def
        wrapped_caption_def
        build_clip_def image_clip_def resize_height_def on_color_def set_audio_def
        min_clip_duration_def)
  have "\<forall>c \<in> set [?C]. min_clip_duration \<le> clip_duration c \<and> 1 / 10 \<le> clip_duration c"
    using clip_duration_clamped [of ?E "[]" 0 "[''Hi'']" "[]" "[?C]"
        "[Synthesize 0 ''Hi'', Placeholder ''Hi'']"] e by blast
  then have t: "1 / 10 \<le> clip_duration ?C" by simp
  have l: "(1 / 16 :: rat) < min_clip_duration" by (simp add: min_clip_duration_def)
  show ?thesis using e t l by blast
qed

section \<open>The placeholder image\<close>

















section \<open>Runs without a credential\<close>













section \<open>Narration failures\<close>

lemma scene_loop_append:
  "scene_loop env topic i pre clips tr = (Inr cs, tr1) \<Longrightarrow>
   scene_loop env topic i (pre @ rest) clips tr
     = scene_loop env topic (i + length pre) rest cs tr1"
proof (induction pre arbitrary: i clips tr)
  case Nil
  then show ?case by simp
next
  case (Cons s pre)
  obtain r tr0 where p: "process_scene env topic i s tr = (r, tr0)"
    by (cases "process_scene env topic i s tr") auto
  show ?case
  proof (cases r)
    case (Inl e)
    then show ?thesis using Cons.prems p by simp
  next
    case (Inr ic)
    then have "scene_loop env topic (Suc i) pre (clips @ [ic]) tr0 = (Inr cs, tr1)"
      using Cons.prems p by simp
    from Cons.IH [OF this] show ?thesis using p Inr by simp
  qed
qed

lemma scene_loop_length:
  "scene_loop env topic i scenes clips tr = (Inr cs, tr1) \<Longrightarrow>
   length cs = length clips + length scenes"
proof (induction scenes arbitrary: i clips tr)
  case Nil
  then show ?case by simp
next
  case (Cons s scenes)
  obtain r tr0 where p: "process_scene env topic i s tr = (r, tr0)"
    by (cases "process_scene env topic i s tr") auto
  show ?case
  proof (cases r)
    case (Inl e)
    then show ?thesis using Cons.prems p by simp
  next
    case (Inr ic)
    then have "scene_loop env topic (Suc i) scenes (clips @ [ic]) tr0 = (Inr cs, tr1)"
      using Cons.prems p by simp
    from Cons.IH [OF this] show ?thesis by simp
  qed
qed

lemma fetch_trace:
  "\<exists>evs. snd (fetch_image_from_pexels env q dest tr) = tr @ evs \<and> list_all quiet evs"
  by (simp add: fetch_image_from_pexels_def quiet_def
      split: sum.splits list.splits option.splits)

lemma process_scene_trace:
  "\<exists>evs. snd (process_scene env topic i s tr) = tr @ Synthesize i s # evs \<and> list_all quiet evs"
proof (cases "synthesize env i s")
  case (Inl e)
  then show ?thesis by (simp add: process_scene_def)
next
  case (Inr d)
  let ?q = "safe_keyword_text s topic"
  obtain found tr0 where
    f: "fetch_image_from_pexels env ?q i (tr @ [Synthesize i s]) = (found, tr0)"
    by (cases "fetch_image_from_pexels env ?q i (tr @ [Synthesize i s])") auto
  obtain evs where e: "tr0 = (tr @ [Synthesize i s]) @ evs" "list_all quiet evs"
    using fetch_trace [of env ?q i "tr @ [Synthesize i s]"] f by auto
  show ?thesis
    using Inr f e
    by (cases found)
       (auto simp: process_scene_def Let_def quiet_def split: sum.splits)
qed

lemma scene_loop_trace:
  "scene_loop env topic i scenes clips tr = (Inr cs, tr1) \<Longrightarrow>
   list_all (\<lambda>ev. \<not> is_write ev) tr \<Longrightarrow>
   list_all (\<lambda>ev. \<not> is_write ev) tr1
   \<and> length (filter is_synthesize tr1) = length (filter is_synthesize tr) + length scenes"
proof (induction scenes arbitrary: i clips tr)
  case Nil
  then show ?case by simp
next
  case (Cons s scenes)
  obtain r tr0 where p: "process_scene env topic i s tr = (r, tr0)"
    by (cases "process_scene env topic i s tr") auto
  obtain evs where e: "tr0 = tr @ Synthesize i s # evs" "list_all quiet evs"
    using process_scene_trace [of env topic i s tr] p by auto
  have q: "list_all (\<lambda>ev. \<not> is_write ev) evs" "filter is_synthesize evs = []"
    using e(2) by (induction evs) (auto simp: quiet_def)
  have w: "list_all (\<lambda>ev. \<not> is_write ev) tr0"
    using Cons.prems(2) q(1) by (simp add: e(1))
  have n: "length (filter is_synthesize tr0) = length (filter is_synthesize tr) + 1"
    using q(2) by (simp add: e(1))
  show ?case
  proof (cases r)
    case (Inl x)
    then show ?thesis using Cons.prems p by simp
  next
    case (Inr ic)
    then have "scene_loop env topic (Suc i) scenes (clips @ [ic]) tr0 = (Inr cs, tr1)"
      using Cons.prems p by simp
    from Cons.IH [OF this w] show ?thesis using n by simp
  qed
qed

text \<open>
  C3 (as amended). When the scenes before scene \<open>s\<close> went well and the narration of
  \<open>s\<close> fails with error \<open>e\<close>, the run ends with that error, as the call raised it:
  the synthesis of \<open>s\<close> is the last event, no scene is synthesised twice, no later scene
  is touched and no encoding is attempted.
\<close>

theorem narration_failure_aborts:
  assumes "scene_loop env topic 0 pre [] [] = (Inr cs, tr1)"
    and "synthesize env (length pre) s = Inl e"
  shows "build_video env (pre @ s # post) topic
           = (Inl (Raised e), tr1 @ [Synthesize (length pre) s])
         \<and> list_all (\<lambda>ev. \<not> is_write ev) (tr1 @ [Synthesize (length pre) s])
         \<and> length (filter is_synthesize (tr1 @ [Synthesize (length pre) s])) = length pre + 1"
proof -
  have "scene_loop env topic 0 (pre @ s # post) [] []
      = scene_loop env topic (0 + length pre) (s # post) cs tr1"
    using assms(1) by (rule scene_loop_append)
  also have "\<dots> = (Inl (Raised e), tr1 @ [Synthesize (length pre) s])"
    using assms(2) by (simp add: process_scene_def)
  finally have b: "build_video env (pre @ s # post) topic
      = (Inl (Raised e), tr1 @ [Synthesize (length pre) s])"
    by (simp add: build_video_def)
  have t: "list_all (\<lambda>ev. \<not> is_write ev) tr1
      \<and> length (filter is_synthesize tr1) = length (filter is_synthesize []) + length pre"
    using assms(1) by (rule scene_loop_trace) simp
  show ?thesis using b t by simp
qed

theorem narration_failure_aborts_witness:
  "scene_loop (sample_env [] (fails_at 1 2) (\<lambda>c. Inr ())) [] 0 [''same text''] [] []
     = (Inr [\<lparr>clip_duration = 2, clip_size = (1280, 720), clip_audio = Some 2\<rparr>],
        [Synthesize 0 ''same text'', Placeholder ''same text''])
   \<and> synthesize (sample_env [] (fails_at 1 2) (\<lambda>c. Inr ())) 1 ''same text'' = Inl ''gTTSError''
   \<and> build_video (sample_env [] (fails_at 1 2) (\<lambda>c. Inr ()))
         [''same text'', ''same text'', ''later''] []
       = (Inl (Raised ''gTTSError''),
          [Synthesize 0 ''same text'', Placeholder ''same text'', Synthesize 1 ''same text''])"
proof -
  let ?E = "sample_env [] (fails_at 1 2) (\<lambda>c. Inr ())"
  have l: "scene_loop ?E [] 0 [''same text''] [] []
     = (Inr [\<lparr>clip_duration = 2, clip_size = (1280, 720), clip_audio = Some 2\<rparr>],
        [Synthesize 0 ''same text'', Placeholder ''same text''])"
    by (simp add: sample_env_def fails_at_def bitmap_textsize_def bitmap_text_def
        process_scene_def fetch_image_from_pexels_def make_placeholder_image_def
        wrapped_caption_def build_clip_def image_clip_def resize_height_def
        on_color_def set_audio_def min_clip_duration_def)
  have f: "synthesize ?E (length [''same text'']) ''same text'' = Inl ''gTTSError''"
    by (simp add: sample_env_def fails_at_def)
  show ?thesis
    using l f narration_failure_aborts [OF l f, of "[''later'']"] by simp
qed

text \<open>
  The claim as stated fails: with a narration whose error does not mention the file, a
  failure at scene 0 of one run and at scene 1 of another are reported by the same error
  value, so the report does not tell the index.
\<close>

theorem narration_error_index_counterexample:
  "failing_index (sample_env [] (steady 2) (\<lambda>c. Inr ())) 0 [''bad''] = Some 0
   \<and> failing_index (sample_env [] (steady 2) (\<lambda>c. Inr ())) 0 [''ok'', ''bad''] = Some 1
   \<and> build_video (sample_env [] (steady 2) (\<lambda>c. Inr ())) [''bad''] []
       = (Inl (Raised ''gTTSError''), [Synthesize 0 ''bad''])
   \<and> build_video (sample_env [] (steady 2) (\<lambda>c. Inr ())) [''ok'', ''bad''] []
       = (Inl (Raised ''gTTSError''),
          [Synthesize 0 ''ok'', Placeholder ''ok'', Synthesize 1 ''bad''])
   \<and> fst (build_video (sample_env [] (steady 2) (\<lambda>c. Inr ())) [''bad''] [])
       = fst (build_video (sample_env [] (steady 2) (\<lambda>c. Inr ())) [''ok'', ''bad''] [])"
  by (simp add: build_video_def sample_env_def steady_def bitmap_textsize_def
      bitmap_text_def process_scene_def fetch_image_from_pexels_def
      make_placeholder_image_def wrapped_caption_def build_clip_def image_clip_def
      resize_height_def on_color_def set_audio_def)

section \<open>Encoding and its fallback\<close>

text \<open>
  C6. After the scenes of a non-empty run have been built: when the encoding with the
  primary codec succeeds, the file is written with it and the fallback codec is never
  invoked; when it fails, the fallback codec is tried exactly once, and the run ends well
  if that succeeds and ends with the error of the fallback encoding if that fails too.
\<close>

theorem encode_fallback:
  assumes "scene_loop env topic 0 scenes [] [] = (Inr clips, tr)" "scenes \<noteq> []"
  shows "(write_videofile env Libx264 clips = Inr () \<longrightarrow>
            build_video env scenes topic = (Inr Libx264, tr @ [WriteVideo Libx264]))
         \<and> (write_videofile env Libx264 clips = Inl e1
              \<and> write_videofile env Mpeg4 clips = Inr () \<longrightarrow>
            build_video env scenes topic
              = (Inr Mpeg4, tr @ [WriteVideo Libx264, WriteVideo Mpeg4]))
         \<and> (write_videofile env Libx264 clips = Inl e1
              \<and> write_videofile env Mpeg4 clips = Inl e2 \<longrightarrow>
            build_video env scenes topic
              = (Inl (Raised e2), tr @ [WriteVideo Libx264, WriteVideo Mpeg4]))"
proof -
  have "length clips = length ([] :: clip list) + length scenes"
    using assms(1) by (rule scene_loop_length)
  then have ne: "clips \<noteq> []" using assms(2) by auto
  show ?thesis by (simp add: build_video_def assms(1) ne)
qed

theorem encode_fallback_witness:
  "build_video (sample_env [] (steady 2) (\<lambda>c. Inr ())) [''ok''] []
     = (Inr Libx264, [Synthesize 0 ''ok'', Placeholder ''ok'', WriteVideo Libx264])
   \<and> build_video (sample_env [] (steady 2) x264_fails) [''ok''] []
     = (Inr Mpeg4,
        [Synthesize 0 ''ok'', Placeholder ''ok'', WriteVideo Libx264, WriteVideo Mpeg4])
   \<and> build_video (sample_env [] (steady 2) both_fail) [''ok''] []
     = (Inl (Raised ''mpeg4 missing''),
        [Synthesize 0 ''ok'', Placeholder ''ok'', WriteVideo Libx264, WriteVideo Mpeg4])"
proof -
  let ?C = "[\<lparr>clip_duration = 2, clip_size = (1280, 720), clip_audio = Some 2\<rparr>]"
  let ?T = "[Synthesize 0 ''ok'', Placeholder ''ok'']"
  have l: "scene_loop (sample_env [] (steady 2) enc) [] 0 [''ok''] [] [] = (Inr ?C, ?T)" for enc
    by (simp add: sample_env_def steady_def bitmap_textsize_def bitmap_text_def
        process_scene_def fetch_image_from_pexels_def make_placeholder_image_def
        wrapped_caption_def build_clip_def image_clip_def resize_height_def
        on_color_def set_audio_def min_clip_duration_def)
  have n: "[''ok''] \<noteq> []" by simp
  have w: "write_videofile (sample_env [] (steady 2) enc) c ?C = enc c" for enc c
    by (simp add: sample_env_def)
  show ?thesis
    using encode_fallback [OF l n, of "\<lambda>c. Inr ()"]
      encode_fallback [OF l n, of x264_fails "''libx264 missing''"]
      encode_fallback [OF l n, of both_fail "''libx264 missing''" "''mpeg4 missing''"]
    by (simp add: w x264_fails_def both_fail_def)
qed

end
